theory Spec2Isabelle
  imports Main
begin

section \<open>Values of package chord\<close>

text \<open>
  The model is of the version of \<^verbatim>\<open>chord.go\<close> that defines \<^verbatim>\<open>Match\<close>,
  \<^verbatim>\<open>WrapThreads\<close> and the \<^verbatim>\<open>Fetch\<close> methods.
  The package stores handlers (\<^verbatim>\<open>Thread\<close>, a Go function value that may be
  \<^verbatim>\<open>nil\<close>) and never calls them, so the body of a handler is a type parameter.
  A \<^verbatim>\<open>ThreadWrapper\<close> is a function from handlers to handlers; it is modelled as
  a total function, so a nil wrapper and a wrapper that does not return are outside
  the model. A \<^verbatim>\<open>*Chord\<close> is a pointer that may be nil; a slice is its header
  (pointer to the backing array, length, capacity). The two \<^verbatim>\<open>sync.Map\<close> fields
  are maps from keys to values: the model is sequential.
\<close>

type_synonym addr = nat

datatype panic = NilDereference | IndexOutOfRange

datatype 'f Thread = NilThread | Func 'f

type_synonym 'f ThreadWrapper = "'f Thread \<Rightarrow> 'f Thread"

datatype ChordRef = NilChord | ChordAt addr

record Slice =
  slice_ptr :: "addr option"
  slice_len :: nat
  slice_cap :: nat

record 'f Chord =
  threads :: "string \<rightharpoonup> 'f Thread"
  chords :: "string \<rightharpoonup> ChordRef"
  middlewares :: Slice

text \<open>
  The memory: the Chord object at every address, the backing arrays of slices (the
  cells written so far), and the next address an allocation takes.
\<close>

record 'f Memory =
  chord_mem :: "addr \<Rightarrow> 'f Chord"
  array_mem :: "addr \<rightharpoonup> 'f ThreadWrapper list"
  next_free :: addr

definition nil_slice :: Slice where
  "nil_slice = \<lparr>slice_ptr = None, slice_len = 0, slice_cap = 0\<rparr>"

text \<open>The zero value \<^verbatim>\<open>Chord{}\<close>, and a memory where every Chord is the zero value.\<close>

definition zero_Chord :: "'f Chord" where
  "zero_Chord = \<lparr>threads = Map.empty, chords = Map.empty, middlewares = nil_slice\<rparr>"

definition empty_Memory :: "'f Memory" where
  "empty_Memory = \<lparr>chord_mem = (\<lambda>_. zero_Chord), array_mem = Map.empty, next_free = 0\<rparr>"

section \<open>Slices\<close>

text \<open>The elements \<^verbatim>\<open>s[0], ..., s[len(s)-1]\<close> of a slice.\<close>

definition slice_elems :: "'f Memory \<Rightarrow> Slice \<Rightarrow> 'f ThreadWrapper list" where
  "slice_elems m s =
     (case slice_ptr s of
        None \<Rightarrow> []
      | Some b \<Rightarrow> (case array_mem m b of
                    None \<Rightarrow> []
                  | Some cells \<Rightarrow> take (slice_len s) cells))"

text \<open>
  \<^verbatim>\<open>md := make([]ThreadWrapper, n); copy(md, src)\<close> with \<^verbatim>\<open>n = len(src)\<close>: a new
  backing array of capacity \<open>n\<close> that holds the elements of \<open>src\<close>.
\<close>

definition make_copy :: "'f Memory \<Rightarrow> Slice \<Rightarrow> Slice \<times> 'f Memory" where
  "make_copy m src =
     (let n = slice_len src; b = next_free m
      in (\<lparr>slice_ptr = Some b, slice_len = n, slice_cap = n\<rparr>,
          m\<lparr>array_mem := (array_mem m)(b \<mapsto> slice_elems m src), next_free := Suc b\<rparr>))"

text \<open>
  Go's \<^verbatim>\<open>append(s, xs...)\<close>: within the capacity it writes the new elements into the
  backing array of \<open>s\<close>; beyond it, it allocates a new array and copies. The capacity
  of the new array is the runtime's choice, here the parameter \<open>grow\<close> (old capacity,
  needed length), never less than the needed length.
\<close>

definition append_slice ::
  "(nat \<Rightarrow> nat \<Rightarrow> nat) \<Rightarrow> 'f Memory \<Rightarrow> Slice \<Rightarrow> 'f ThreadWrapper list \<Rightarrow> Slice \<times> 'f Memory" where
  "append_slice grow m s xs =
     (let n = slice_len s + length xs
      in if n \<le> slice_cap s then
           (case slice_ptr s of
              None \<Rightarrow> (s\<lparr>slice_len := n\<rparr>, m)
            | Some b \<Rightarrow>
                (case array_mem m b of
                   None \<Rightarrow> (s\<lparr>slice_len := n\<rparr>, m)
                 | Some cells \<Rightarrow>
                     (s\<lparr>slice_len := n\<rparr>,
                      m\<lparr>array_mem := (array_mem m)
                          (b \<mapsto> take (slice_len s) cells @ xs @ drop n cells)\<rparr>)))
         else
           (let b = next_free m
            in (\<lparr>slice_ptr = Some b, slice_len = n, slice_cap = max n (grow (slice_cap s) n)\<rparr>,
                m\<lparr>array_mem := (array_mem m)(b \<mapsto> slice_elems m s @ xs),
                  next_free := Suc b\<rparr>)))"

text \<open>Go's indexed assignment \<^verbatim>\<open>s[i] = w\<close>, which panics out of range.\<close>

definition slice_set ::
  "'f Memory \<Rightarrow> Slice \<Rightarrow> nat \<Rightarrow> 'f ThreadWrapper \<Rightarrow> panic + 'f Memory" where
  "slice_set m s i w =
     (if i < slice_len s then
        (case slice_ptr s of
           None \<Rightarrow> Inl NilDereference
         | Some b \<Rightarrow> (case array_mem m b of
                       None \<Rightarrow> Inl NilDereference
                     | Some cells \<Rightarrow> Inr (m\<lparr>array_mem := (array_mem m)(b \<mapsto> cells[i := w])\<rparr>)))
      else Inl IndexOutOfRange)"

section \<open>Methods of Chord\<close>

text \<open>A method called on a nil \<^verbatim>\<open>*Chord\<close> panics when it reads a field.\<close>

definition FetchThread :: "'f Memory \<Rightarrow> ChordRef \<Rightarrow> string \<Rightarrow> panic + ('f Thread \<times> bool)" where
  "FetchThread m c key =
     (case c of
        NilChord \<Rightarrow> Inl NilDereference
      | ChordAt a \<Rightarrow> (case threads (chord_mem m a) key of
                       None \<Rightarrow> Inr (NilThread, False)
                     | Some thread \<Rightarrow> Inr (thread, True)))"

definition FetchChord :: "'f Memory \<Rightarrow> ChordRef \<Rightarrow> string \<Rightarrow> panic + (ChordRef \<times> bool)" where
  "FetchChord m c key =
     (case c of
        NilChord \<Rightarrow> Inl NilDereference
      | ChordAt a \<Rightarrow> (case chords (chord_mem m a) key of
                       None \<Rightarrow> Inr (NilChord, False)
                     | Some chord \<Rightarrow> Inr (chord, True)))"

definition FetchMiddlewares :: "'f Memory \<Rightarrow> ChordRef \<Rightarrow> panic + (Slice \<times> 'f Memory)" where
  "FetchMiddlewares m c =
     (case c of
        NilChord \<Rightarrow> Inl NilDereference
      | ChordAt a \<Rightarrow> Inr (make_copy m (middlewares (chord_mem m a))))"

text \<open>
  \<^verbatim>\<open>for i := len(tw) - 1; i > 0; i-- { thread = tw[i](thread) }\<close>: the index is a
  signed integer, \<open>-1\<close> for no wrappers; it stays within \<open>1 .. len(tw) - 1\<close> in the body.
\<close>

function WrapThreads_loop :: "'f ThreadWrapper list \<Rightarrow> int \<Rightarrow> 'f Thread \<Rightarrow> 'f Thread" where
  "WrapThreads_loop tw i thread =
     (if i > 0 then WrapThreads_loop tw (i - 1) ((tw ! nat i) thread) else thread)"
  by pat_completeness auto
termination
  by (relation "measure (\<lambda>(tw, i, thread). nat i)") auto

definition WrapThreads :: "'f Thread \<Rightarrow> 'f ThreadWrapper list \<Rightarrow> 'f Thread" where
  "WrapThreads thread tw = WrapThreads_loop tw (int (length tw) - 1) thread"

definition Register ::
  "'f Memory \<Rightarrow> ChordRef \<Rightarrow> string \<Rightarrow> 'f Thread \<Rightarrow> 'f ThreadWrapper list \<Rightarrow> panic + 'f Memory" where
  "Register m c key thread tw =
     (let thread' = WrapThreads thread tw
      in case c of
           NilChord \<Rightarrow> Inl NilDereference
         | ChordAt a \<Rightarrow>
             Inr (m\<lparr>chord_mem := (chord_mem m)
                    (a := (chord_mem m a)\<lparr>threads := (threads (chord_mem m a))(key \<mapsto> thread')\<rparr>)\<rparr>))"

definition Unregister :: "'f Memory \<Rightarrow> ChordRef \<Rightarrow> string \<Rightarrow> 'f Thread \<Rightarrow> panic + 'f Memory" where
  "Unregister m c key thread =
     (case c of
        NilChord \<Rightarrow> Inl NilDereference
      | ChordAt a \<Rightarrow>
          Inr (m\<lparr>chord_mem := (chord_mem m)
                 (a := (chord_mem m a)\<lparr>threads := (threads (chord_mem m a))(key := None)\<rparr>)\<rparr>))"

definition Mount :: "'f Memory \<Rightarrow> ChordRef \<Rightarrow> string \<Rightarrow> ChordRef \<Rightarrow> panic + 'f Memory" where
  "Mount m c key chord =
     (case c of
        NilChord \<Rightarrow> Inl NilDereference
      | ChordAt a \<Rightarrow>
          Inr (m\<lparr>chord_mem := (chord_mem m)
                 (a := (chord_mem m a)\<lparr>chords := (chords (chord_mem m a))(key \<mapsto> chord)\<rparr>)\<rparr>))"

definition Unmount :: "'f Memory \<Rightarrow> ChordRef \<Rightarrow> string \<Rightarrow> panic + 'f Memory" where
  "Unmount m c key =
     (case c of
        NilChord \<Rightarrow> Inl NilDereference
      | ChordAt a \<Rightarrow>
          Inr (m\<lparr>chord_mem := (chord_mem m)
                 (a := (chord_mem m a)\<lparr>chords := (chords (chord_mem m a))(key := None)\<rparr>)\<rparr>))"

definition Use ::
  "(nat \<Rightarrow> nat \<Rightarrow> nat) \<Rightarrow> 'f Memory \<Rightarrow> ChordRef \<Rightarrow> 'f ThreadWrapper list \<Rightarrow> panic + 'f Memory" where
  "Use grow m c tw =
     (case c of
        NilChord \<Rightarrow> Inl NilDereference
      | ChordAt a \<Rightarrow>
          (let (s, m') = append_slice grow m (middlewares (chord_mem m a)) tw
           in Inr (m'\<lparr>chord_mem := (chord_mem m')(a := (chord_mem m' a)\<lparr>middlewares := s\<rparr>)\<rparr>)))"

section \<open>Match\<close>

text \<open>
  The recursion is on the path, so it ends on every memory, cyclic mounts included.
  Each \<^verbatim>\<open>FetchMiddlewares\<close> allocates its copy, so Match returns the memory too.
\<close>

fun Match :: "'f Memory \<Rightarrow> ChordRef \<Rightarrow> string list \<Rightarrow> panic + (('f Thread \<times> bool) \<times> 'f Memory)" where
  "Match m node [] = Inr ((NilThread, False), m)"
| "Match m node [key] =
     (case FetchThread m node key of
        Inl p \<Rightarrow> Inl p
      | Inr (thread, ok) \<Rightarrow>
          if \<not> ok then Inr ((NilThread, False), m)
          else (case FetchMiddlewares m node of
                  Inl p \<Rightarrow> Inl p
                | Inr (md, m1) \<Rightarrow> Inr ((WrapThreads thread (slice_elems m1 md), True), m1)))"
| "Match m node (key # key' # rest) =
     (case FetchChord m node key of
        Inl p \<Rightarrow> Inl p
      | Inr (chord, ok) \<Rightarrow>
          if \<not> ok then Inr ((NilThread, False), m)
          else (case Match m chord (key' # rest) of
                  Inl p \<Rightarrow> Inl p
                | Inr ((thread, ok'), m1) \<Rightarrow>
                    if \<not> ok' then Inr ((NilThread, False), m1)
                    else (case FetchMiddlewares m1 chord of
                            Inl p \<Rightarrow> Inl p
                          | Inr (md, m2) \<Rightarrow>
                              Inr ((WrapThreads thread (slice_elems m2 md), True), m2))))"

section \<open>Validity of a slice\<close>

text \<open>
  A slice of a memory: nil with length and capacity 0, or a pointer to an allocated
  backing array that holds at least its \<open>len\<close> elements, with \<open>len \<le> cap\<close>.
\<close>

definition valid_slice :: "'f Memory \<Rightarrow> Slice \<Rightarrow> bool" where
  "valid_slice m s =
     (case slice_ptr s of
        None \<Rightarrow> slice_len s = 0 \<and> slice_cap s = 0
      | Some b \<Rightarrow> b < next_free m \<and> slice_len s \<le> slice_cap s \<and>
                  (case array_mem m b of
                     None \<Rightarrow> False
                   | Some cells \<Rightarrow> slice_len s \<le> length cells))"

section \<open>The composition the specification describes\<close>

text \<open>
  Section 4.2 of the specification: every wrapper of the sequence is applied, the last
  one first, so that the first wrapper is the outermost layer:
  \<open>w1 (w2 (... (wn base)))\<close>.
\<close>

definition ComposeHandler_spec :: "'f Thread \<Rightarrow> 'f ThreadWrapper list \<Rightarrow> 'f Thread" where
  "ComposeHandler_spec base wrappers = foldr (\<lambda>w t. w t) wrappers base"

section \<open>Handlers that write to a log\<close>

text \<open>
  Concrete handlers for the examples, after the README's \<^verbatim>\<open>logMiddleware\<close>: a
  handler appends to a shared log, a wrapper logs before and after the handler it
  wraps. Calling the nil handler panics (\<open>None\<close>).
\<close>

type_synonym log = "string list"

type_synonym logger = "log \<Rightarrow> log option"

definition invoke :: "logger Thread \<Rightarrow> log \<Rightarrow> log option" where
  "invoke thread l = (case thread of NilThread \<Rightarrow> None | Func f \<Rightarrow> f l)"

definition say :: "string \<Rightarrow> logger Thread" where
  "say s = Func (\<lambda>l. Some (l @ [s]))"

definition around :: "string \<Rightarrow> string \<Rightarrow> logger ThreadWrapper" where
  "around pre post next =
     Func (\<lambda>l. case invoke next (l @ [pre]) of None \<Rightarrow> None | Some l' \<Rightarrow> Some (l' @ [post]))"

text \<open>Sequencing of calls that may panic, and a growth policy for the examples.\<close>

definition and_then :: "panic + 'a \<Rightarrow> ('a \<Rightarrow> panic + 'b) \<Rightarrow> panic + 'b" where
  "and_then r f = (case r of Inl p \<Rightarrow> Inl p | Inr x \<Rightarrow> f x)"

definition grow_double :: "nat \<Rightarrow> nat \<Rightarrow> nat" where
  "grow_double old n = 2 * old"

text \<open>
  The tree of the specification's property P4: the root (address 0) has the middleware
  \<open>root_mw\<close>, the child (address 1) is mounted at \<open>c\<close>, has the middleware \<open>child_mw\<close>
  and the handler \<open>h\<close>.
\<close>

definition two_level ::
  "logger ThreadWrapper list \<Rightarrow> logger ThreadWrapper list \<Rightarrow> panic + logger Memory" where
  "two_level root_mw child_mw =
     and_then (Use grow_double empty_Memory (ChordAt 0) root_mw) (\<lambda>m.
     and_then (Use grow_double m (ChordAt 1) child_mw) (\<lambda>m.
     and_then (Register m (ChordAt 1) ''h'' (say ''h'') []) (\<lambda>m.
     Mount m (ChordAt 0) ''c'' (ChordAt 1))))"

text \<open>Resolve a path and call the handler found on the empty log.\<close>

definition resolve_and_run ::
  "logger Memory \<Rightarrow> ChordRef \<Rightarrow> string list \<Rightarrow> panic + (bool \<times> log option)" where
  "resolve_and_run m node path =
     and_then (Match m node path) (\<lambda>((thread, ok), m'). Inr (ok, invoke thread []))"

text \<open>
  The tree of the README's example: the handler \<open>hello\<close> is registered at the root
  (address 0), then the logging middleware is added to the root.
\<close>

definition readme_tree :: "panic + logger Memory" where
  "readme_tree =
     and_then (Register empty_Memory (ChordAt 0) ''hello'' (say ''hello'') []) (\<lambda>m.
     Use grow_double m (ChordAt 0) [around ''Executing'' ''Finished''])"

text \<open>Several calls of Use on one node, one after the other.\<close>

fun Use_each ::
  "(nat \<Rightarrow> nat \<Rightarrow> nat) \<Rightarrow> 'f Memory \<Rightarrow> ChordRef \<Rightarrow> 'f ThreadWrapper list list \<Rightarrow> panic + 'f Memory" where
  "Use_each grow m c [] = Inr m"
| "Use_each grow m c (tw # tws) = and_then (Use grow m c tw) (\<lambda>m'. Use_each grow m' c tws)"

text \<open>
  A memory built by the package's own calls: the root (address 0) has three wrappers
  added one at a time (its backing array ends with spare capacity), the handlers \<open>h\<close>
  and \<open>x\<close>, and the child at address 1 mounted both at \<open>c\<close> and at \<open>h\<close>.
\<close>

definition sample_build :: "panic + logger Memory" where
  "sample_build =
     and_then (Use grow_double empty_Memory (ChordAt 0) [around ''r1'' ''R1'']) (\<lambda>m.
     and_then (Use grow_double m (ChordAt 0) [around ''r2'' ''R2'']) (\<lambda>m.
     and_then (Use grow_double m (ChordAt 0) [around ''r3'' ''R3'']) (\<lambda>m.
     and_then (Use grow_double m (ChordAt 1) [around ''c1'' ''C1'', around ''c2'' ''C2'']) (\<lambda>m.
     and_then (Register m (ChordAt 0) ''h'' (say ''h'') []) (\<lambda>m.
     and_then (Register m (ChordAt 0) ''x'' (say ''x'') []) (\<lambda>m.
     and_then (Register m (ChordAt 1) ''h'' (say ''k'') []) (\<lambda>m.
     and_then (Mount m (ChordAt 0) ''c'' (ChordAt 1)) (\<lambda>m.
     Mount m (ChordAt 0) ''h'' (ChordAt 1)))))))))"

definition sample_memory :: "logger Memory" where
  "sample_memory = (case sample_build of Inl p \<Rightarrow> empty_Memory | Inr m \<Rightarrow> m)"

section \<open>Memories the package can reach\<close>

text \<open>
  The memories reached from the empty one by the calls of the package and by
  assignments to elements of slices, and the invariant they keep: the middleware slice
  of every Chord is valid.
\<close>

inductive reachable :: "'f Memory \<Rightarrow> bool" where
  start: "reachable empty_Memory"
| register: "reachable m \<Longrightarrow> Register m c key thread tw = Inr m' \<Longrightarrow> reachable m'"
| unregister: "reachable m \<Longrightarrow> Unregister m c key thread = Inr m' \<Longrightarrow> reachable m'"
| mount: "reachable m \<Longrightarrow> Mount m c key chord = Inr m' \<Longrightarrow> reachable m'"
| unmount: "reachable m \<Longrightarrow> Unmount m c key = Inr m' \<Longrightarrow> reachable m'"
| use: "reachable m \<Longrightarrow> Use grow m c tw = Inr m' \<Longrightarrow> reachable m'"
| fetch: "reachable m \<Longrightarrow> FetchMiddlewares m c = Inr (md, m') \<Longrightarrow> reachable m'"
| match: "reachable m \<Longrightarrow> Match m c path = Inr (r, m') \<Longrightarrow> reachable m'"
| assign: "reachable m \<Longrightarrow> slice_set m s i w = Inr m' \<Longrightarrow> reachable m'"

definition all_valid :: "'f Memory \<Rightarrow> bool" where
  "all_valid m = (\<forall>a. valid_slice m (middlewares (chord_mem m a)))"

section \<open>WrapThreads\<close>

declare WrapThreads_loop.simps [simp del]

lemma WrapThreads_Nil: "WrapThreads thread [] = thread"
  by (simp add: WrapThreads_def WrapThreads_loop.simps)

text \<open>
  The loop from index \<open>n\<close> applies the wrappers at the indices \<open>n, n - 1, ..., 1\<close>, in
  this order; index 0 is never reached, since the loop condition is \<open>i > 0\<close>.
\<close>

lemma WrapThreads_loop_tl:
  "n < length tw \<Longrightarrow>
   WrapThreads_loop tw (int n) thread = foldr (\<lambda>w t. w t) (take n (tl tw)) thread"
proof (induction n arbitrary: thread)
  case 0
  then show ?case by (simp add: WrapThreads_loop.simps)
next
  case (Suc n)
  have "WrapThreads_loop tw (int (Suc n)) thread
        = WrapThreads_loop tw (int n) ((tw ! Suc n) thread)"
  proof -
    have "int (Suc n) > 0" and "nat (int (Suc n)) = Suc n" and "int (Suc n) - 1 = int n"
      by simp_all
    then show ?thesis
      by (subst WrapThreads_loop.simps) (simp only: if_True)
  qed
  also have "\<dots> = foldr (\<lambda>w t. w t) (take n (tl tw)) ((tw ! Suc n) thread)"
    using Suc by simp
  also have "\<dots> = foldr (\<lambda>w t. w t) (take (Suc n) (tl tw)) thread"
    using Suc.prems by (simp add: take_Suc_conv_app_nth nth_tl)
  finally show ?case .
qed

text \<open>WrapThreads on every input: the wrappers after the first, the first of them outermost.\<close>

lemma WrapThreads_tl: "WrapThreads thread tw = foldr (\<lambda>w t. w t) (tl tw) thread"
proof (cases tw)
  case Nil
  then show ?thesis by (simp add: WrapThreads_Nil)
next
  case (Cons w ws)
  have "WrapThreads thread tw = WrapThreads_loop tw (int (length ws)) thread"
    using Cons by (simp add: WrapThreads_def)
  also have "\<dots> = foldr (\<lambda>w t. w t) (take (length ws) (tl tw)) thread"
    using Cons by (intro WrapThreads_loop_tl) simp
  finally show ?thesis using Cons by simp
qed

lemma WrapThreads_Cons: "WrapThreads thread (w # ws) = ComposeHandler_spec thread ws"
  by (simp add: WrapThreads_tl ComposeHandler_spec_def)

text \<open>
  C1: WrapThreads should apply every wrapper, the first outermost. At the handler
  \<open>h\<close> and the wrappers \<open>[a/A, b/B]\<close> the composition of the specification logs
  \<open>a, b, h, B, A\<close>; the handler WrapThreads returns logs \<open>b, h, B\<close>: the first wrapper
  is not applied. With the single wrapper \<open>a/A\<close> the handler comes back unwrapped.
\<close>

theorem WrapThreads_skips_first_wrapper:
  "invoke (ComposeHandler_spec (say ''h'') [around ''a'' ''A'', around ''b'' ''B'']) []
     = Some [''a'', ''b'', ''h'', ''B'', ''A'']
   \<and> invoke (WrapThreads (say ''h'') [around ''a'' ''A'', around ''b'' ''B'']) []
     = Some [''b'', ''h'', ''B'']
   \<and> WrapThreads (say ''h'') [around ''a'' ''A''] = say ''h''"
  by (simp add: WrapThreads_tl ComposeHandler_spec_def invoke_def say_def around_def)

text \<open>
  C8: for every base handler, the nil handler included, WrapThreads with no wrappers
  returns the handler unchanged; the result is a handler, there is no failure value.
\<close>

theorem WrapThreads_no_wrappers: "WrapThreads thread [] = thread"
  by (simp add: WrapThreads_def WrapThreads_loop.simps)

section \<open>The example memory\<close>

lemma sample_build_returns: "sample_build = Inr sample_memory"
  by (simp add: sample_memory_def sample_build_def and_then_def Use_def Register_def Mount_def
        empty_Memory_def zero_Chord_def nil_slice_def append_slice_def slice_elems_def
        WrapThreads_Nil grow_double_def Let_def)

lemma sample_memory_facts:
  "chord_mem sample_memory 0 =
     \<lparr>threads = [''h'' \<mapsto> say ''h'', ''x'' \<mapsto> say ''x''],
      chords = [''c'' \<mapsto> ChordAt 1, ''h'' \<mapsto> ChordAt 1],
      middlewares = \<lparr>slice_ptr = Some 2, slice_len = 3, slice_cap = 4\<rparr>\<rparr>"
  "chord_mem sample_memory 1 =
     \<lparr>threads = [''h'' \<mapsto> say ''k''], chords = Map.empty,
      middlewares = \<lparr>slice_ptr = Some 3, slice_len = 2, slice_cap = 2\<rparr>\<rparr>"
  "array_mem sample_memory 2 = Some [around ''r1'' ''R1'', around ''r2'' ''R2'', around ''r3'' ''R3'']"
  "array_mem sample_memory 3 = Some [around ''c1'' ''C1'', around ''c2'' ''C2'']"
  "next_free sample_memory = 4"
  by (simp_all add: sample_memory_def sample_build_def and_then_def Use_def Register_def
        Mount_def empty_Memory_def zero_Chord_def nil_slice_def append_slice_def slice_elems_def
        WrapThreads_Nil grow_double_def Let_def)

lemma sample_root_elems:
  "slice_elems sample_memory (middlewares (chord_mem sample_memory 0))
     = [around ''r1'' ''R1'', around ''r2'' ''R2'', around ''r3'' ''R3'']"
  by (simp add: slice_elems_def sample_memory_facts)

section \<open>The handler map and the child map\<close>

text \<open>
  C7: for every key and handlers \<open>A\<close> and \<open>B\<close>, Register of \<open>A\<close> and then of \<open>B\<close> under
  the key, each with no wrappers, both return, and FetchThread then returns \<open>B\<close> as
  found: whatever \<open>A\<close> is, the second registration has replaced it.
\<close>

theorem Register_last_write_wins:
  "\<exists>m1 m2. Register m (ChordAt a) k A [] = Inr m1
          \<and> Register m1 (ChordAt a) k B [] = Inr m2
          \<and> FetchThread m2 (ChordAt a) k = Inr (B, True)"
  by (simp add: Register_def FetchThread_def WrapThreads_Nil)

text \<open>
  C6: for every key and every handler argument, Unregister returns, the handler map
  of the node is the old one without the key, FetchThread no longer finds the key, and
  the call with another handler argument gives the same result: the argument is not
  consulted.
\<close>

theorem Unregister_by_key:
  "(\<exists>m'. Unregister m (ChordAt a) k t = Inr m'
         \<and> threads (chord_mem m' a) = (threads (chord_mem m a))(k := None)
         \<and> FetchThread m' (ChordAt a) k = Inr (NilThread, False))
   \<and> Unregister m c k t = Unregister m c k t'"
  by (simp add: Unregister_def FetchThread_def)

text \<open>
  C10: when no handler is stored under the key, Unregister returns without a panic
  and leaves the whole memory as it was, so the handler map, the child map and the
  middleware of the node are unchanged; when no child is mounted under the key, the
  same holds of Unmount.
\<close>

theorem remove_absent_key:
  "(threads (chord_mem m a) k = None \<longrightarrow> Unregister m (ChordAt a) k t = Inr m)
   \<and> (chords (chord_mem m a) k = None \<longrightarrow> Unmount m (ChordAt a) k = Inr m)"
proof (intro conjI impI)
  assume h: "threads (chord_mem m a) k = None"
  have "(threads (chord_mem m a))(k := None) = threads (chord_mem m a)"
    using h by (simp add: fun_upd_idem)
  then show "Unregister m (ChordAt a) k t = Inr m"
    by (simp add: Unregister_def)
next
  assume h: "chords (chord_mem m a) k = None"
  have "(chords (chord_mem m a))(k := None) = chords (chord_mem m a)"
    using h by (simp add: fun_upd_idem)
  then show "Unmount m (ChordAt a) k = Inr m"
    by (simp add: Unmount_def)
qed

theorem remove_absent_key_witness:
  "threads (chord_mem sample_memory 0) ''zz'' = None
   \<and> chords (chord_mem sample_memory 0) ''zz'' = None
   \<and> Unregister sample_memory (ChordAt 0) ''zz'' (say ''h'') = Inr sample_memory
   \<and> Unmount sample_memory (ChordAt 0) ''zz'' = Inr sample_memory"
  using remove_absent_key [of sample_memory 0 "''zz''" "say ''h''"]
  by (simp add: sample_memory_facts)

section \<open>Slices and the middleware of a node\<close>

lemma slice_elems_make_copy:
  "slice_elems (snd (make_copy m src)) (fst (make_copy m src)) = slice_elems m src"
  by (simp add: make_copy_def slice_elems_def Let_def split: option.splits)

lemma make_copy_facts:
  assumes "make_copy m src = (md, m1)"
  shows "slice_ptr md = Some (next_free m)" and "slice_len md = slice_len src"
    and "slice_cap md = slice_len src"
    and "chord_mem m1 = chord_mem m" and "next_free m1 = Suc (next_free m)"
    and "array_mem m1 = (array_mem m)(next_free m \<mapsto> slice_elems m src)"
  using assms by (auto simp: make_copy_def Let_def)

lemma slice_elems_cong:
  "slice_ptr s = Some b \<Longrightarrow> array_mem m' b = array_mem m b \<Longrightarrow> slice_elems m' s = slice_elems m s"
  by (simp add: slice_elems_def)

lemma valid_slice_make_copy:
  assumes "valid_slice m t" and "make_copy m src = (md, m1)"
  shows "valid_slice m1 t" and "slice_elems m1 t = slice_elems m t"
  using assms
  by (auto simp: valid_slice_def make_copy_def slice_elems_def Let_def split: option.splits)

lemma append_slice_elems:
  assumes "valid_slice m s" and "append_slice grow m s xs = (s', m')"
  shows "slice_elems m' s' = slice_elems m s @ xs"
  using assms
  by (auto simp: valid_slice_def append_slice_def slice_elems_def Let_def
           split: option.splits if_splits)

lemma append_slice_other_array:
  assumes "append_slice grow m s xs = (s', m')"
      and "p \<noteq> next_free m" and "slice_ptr s \<noteq> Some p"
  shows "array_mem m' p = array_mem m p"
  using assms
  by (auto simp: append_slice_def Let_def split: option.splits if_splits)

lemma append_slice_chord_mem:
  assumes "append_slice grow m s xs = (s', m')"
  shows "chord_mem m' = chord_mem m" and "next_free m \<le> next_free m'"
  using assms
  by (auto simp: append_slice_def Let_def split: option.splits if_splits)

lemma append_slice_result_ptr:
  assumes "append_slice grow m s xs = (s', m')" and "slice_ptr s \<noteq> Some p" and "p < next_free m"
  shows "slice_ptr s' \<noteq> Some p"
  using assms
  by (auto simp: append_slice_def Let_def split: option.splits if_splits)

text \<open>Validity is an invariant: append keeps every valid slice valid, and its result is valid.\<close>

lemma valid_slice_append_result:
  assumes "valid_slice m s" and "append_slice grow m s xs = (s', m')"
  shows "valid_slice m' s'"
  using assms
  by (auto simp: valid_slice_def append_slice_def slice_elems_def Let_def
           split: option.splits if_splits)

lemma valid_slice_append_other:
  assumes "valid_slice m t" and "append_slice grow m s xs = (s', m')"
  shows "valid_slice m' t"
  using assms
  by (auto simp: valid_slice_def append_slice_def slice_elems_def Let_def
           split: option.splits if_splits)

lemma valid_slice_empty_Memory: "valid_slice empty_Memory (middlewares (chord_mem empty_Memory a))"
  by (simp add: valid_slice_def empty_Memory_def zero_Chord_def nil_slice_def)

lemma Use_ChordAt:
  "Use grow m (ChordAt a) tw =
     Inr ((snd (append_slice grow m (middlewares (chord_mem m a)) tw))
          \<lparr>chord_mem := (chord_mem m)(a := (chord_mem m a)
              \<lparr>middlewares := fst (append_slice grow m (middlewares (chord_mem m a)) tw)\<rparr>)\<rparr>)"
proof -
  obtain s m' where ap: "append_slice grow m (middlewares (chord_mem m a)) tw = (s, m')"
    by (cases "append_slice grow m (middlewares (chord_mem m a)) tw")
  then show ?thesis
    using append_slice_chord_mem(1) [OF ap] by (simp add: Use_def)
qed

text \<open>Use appends: the node's sequence afterwards is the old one followed by the new wrappers.\<close>

lemma Use_appends:
  assumes "valid_slice m (middlewares (chord_mem m a))"
      and "Use grow m (ChordAt a) tw = Inr m'"
  shows "slice_elems m' (middlewares (chord_mem m' a)) = slice_elems m (middlewares (chord_mem m a)) @ tw"
    and "valid_slice m' (middlewares (chord_mem m' a))"
proof -
  obtain s m2 where ap: "append_slice grow m (middlewares (chord_mem m a)) tw = (s, m2)"
    by (cases "append_slice grow m (middlewares (chord_mem m a)) tw")
  have m': "m' = m2\<lparr>chord_mem := (chord_mem m)(a := (chord_mem m a)\<lparr>middlewares := s\<rparr>)\<rparr>"
    using assms(2) ap by (simp add: Use_ChordAt)
  have mw: "middlewares (chord_mem m' a) = s"
    by (simp add: m')
  have el: "slice_elems m' t = slice_elems m2 t" for t
    by (simp add: m' slice_elems_def split: option.splits)
  have va: "valid_slice m' t = valid_slice m2 t" for t
    by (simp add: m' valid_slice_def split: option.splits)
  show "slice_elems m' (middlewares (chord_mem m' a)) = slice_elems m (middlewares (chord_mem m a)) @ tw"
    using append_slice_elems [OF assms(1) ap] by (simp add: mw el)
  show "valid_slice m' (middlewares (chord_mem m' a))"
    using valid_slice_append_result [OF assms(1) ap] by (simp add: mw va)
qed

text \<open>
  An array that is allocated and is not the backing array of the node's middleware is
  left alone by Use on that node, and stays apart from the node's middleware: so it is
  left alone by every later Use as well.
\<close>

lemma Use_other_array:
  assumes "Use grow m (ChordAt c) tw = Inr m'"
      and "p < next_free m" and "slice_ptr (middlewares (chord_mem m c)) \<noteq> Some p"
  shows "array_mem m' p = array_mem m p" and "p < next_free m'"
    and "slice_ptr (middlewares (chord_mem m' c)) \<noteq> Some p"
proof -
  obtain s m2 where ap: "append_slice grow m (middlewares (chord_mem m c)) tw = (s, m2)"
    by (cases "append_slice grow m (middlewares (chord_mem m c)) tw")
  have m': "m' = m2\<lparr>chord_mem := (chord_mem m)(c := (chord_mem m c)\<lparr>middlewares := s\<rparr>)\<rparr>"
    using assms(1) ap by (simp add: Use_ChordAt)
  show "array_mem m' p = array_mem m p"
    using append_slice_other_array [OF ap, of p] assms(2,3) by (simp add: m')
  show "p < next_free m'"
    using append_slice_chord_mem(2) [OF ap] assms(2) by (simp add: m')
  show "slice_ptr (middlewares (chord_mem m' c)) \<noteq> Some p"
    using append_slice_result_ptr [OF ap assms(3,2)] by (simp add: m')
qed

text \<open>The same for any number of calls of Use on the node.\<close>

lemma Use_each_appends:
  assumes "valid_slice m (middlewares (chord_mem m a))"
      and "p < next_free m" and "slice_ptr (middlewares (chord_mem m a)) \<noteq> Some p"
  shows "\<exists>m'. Use_each grow m (ChordAt a) tws = Inr m'
           \<and> slice_elems m' (middlewares (chord_mem m' a))
               = slice_elems m (middlewares (chord_mem m a)) @ concat tws
           \<and> array_mem m' p = array_mem m p"
  using assms
proof (induction tws arbitrary: m)
  case Nil
  then show ?case by simp
next
  case (Cons tw tws)
  obtain m1 where u: "Use grow m (ChordAt a) tw = Inr m1"
    by (simp add: Use_ChordAt)
  note step = Use_appends [OF Cons.prems(1) u] Use_other_array [OF u Cons.prems(2,3)]
  from Cons.IH [OF step(2) step(4) step(5)] obtain m' where
    "Use_each grow m1 (ChordAt a) tws = Inr m'" and
    "slice_elems m' (middlewares (chord_mem m' a))
       = slice_elems m1 (middlewares (chord_mem m1 a)) @ concat tws" and
    "array_mem m' p = array_mem m1 p"
    by blast
  then show ?case
    using u step(1) step(3) by (simp add: and_then_def)
qed

text \<open>
  C9: for every node whose middleware slice is valid, FetchMiddlewares returns a
  slice with the elements of the node's middleware, and the slice is a copy: after any
  later calls of Use on the node, with any wrappers and any growth policy, the node's
  sequence is the old one followed by the new wrappers and the snapshot still has the
  old elements; after an assignment to an element of the snapshot, the snapshot has
  changed and the node's sequence has not.
\<close>

theorem FetchMiddlewares_is_a_copy:
  assumes valid: "valid_slice m (middlewares (chord_mem m a))"
  shows "\<exists>md m1. FetchMiddlewares m (ChordAt a) = Inr (md, m1)
      \<and> slice_elems m1 md = slice_elems m (middlewares (chord_mem m a))
      \<and> slice_elems m1 (middlewares (chord_mem m1 a)) = slice_elems m (middlewares (chord_mem m a))
      \<and> (\<forall>grow tws. \<exists>m2. Use_each grow m1 (ChordAt a) tws = Inr m2
            \<and> slice_elems m2 (middlewares (chord_mem m2 a))
                = slice_elems m (middlewares (chord_mem m a)) @ concat tws
            \<and> slice_elems m2 md = slice_elems m (middlewares (chord_mem m a)))
      \<and> (\<forall>i w. i < slice_len md \<longrightarrow> (\<exists>m2. slice_set m1 md i w = Inr m2
            \<and> slice_elems m2 md = (slice_elems m (middlewares (chord_mem m a)))[i := w]
            \<and> slice_elems m2 (middlewares (chord_mem m2 a))
                = slice_elems m (middlewares (chord_mem m a))))"
proof -
  let ?src = "middlewares (chord_mem m a)"
  obtain md m1 where mc: "make_copy m ?src = (md, m1)"
    by (cases "make_copy m ?src")
  note f = make_copy_facts [OF mc]
  have fetch: "FetchMiddlewares m (ChordAt a) = Inr (md, m1)"
    by (simp add: FetchMiddlewares_def mc)
  have snap: "slice_elems m1 md = slice_elems m ?src"
    using slice_elems_make_copy [of m ?src] mc by simp
  have src1: "middlewares (chord_mem m1 a) = ?src"
    by (simp add: f(4))
  have valid1: "valid_slice m1 ?src" and node1: "slice_elems m1 ?src = slice_elems m ?src"
    using valid_slice_make_copy [OF valid mc] by simp_all
  have apart: "slice_ptr ?src \<noteq> Some (next_free m)"
    using valid by (auto simp: valid_slice_def split: option.splits)
  have use: "\<exists>m2. Use_each grow m1 (ChordAt a) tws = Inr m2
            \<and> slice_elems m2 (middlewares (chord_mem m2 a)) = slice_elems m ?src @ concat tws
            \<and> slice_elems m2 md = slice_elems m ?src" for grow tws
  proof -
    have "valid_slice m1 (middlewares (chord_mem m1 a))"
      and "next_free m < next_free m1"
      and "slice_ptr (middlewares (chord_mem m1 a)) \<noteq> Some (next_free m)"
      using valid1 src1 apart f(5) by simp_all
    from Use_each_appends [OF this, of grow tws] obtain m2 where
      u: "Use_each grow m1 (ChordAt a) tws = Inr m2" and
      n: "slice_elems m2 (middlewares (chord_mem m2 a)) = slice_elems m1 ?src @ concat tws" and
      k: "array_mem m2 (next_free m) = array_mem m1 (next_free m)"
      using src1 by auto
    have "slice_elems m2 md = slice_elems m1 md"
      using k by (rule slice_elems_cong [OF f(1)])
    then show ?thesis
      using u n snap node1 by simp
  qed
  have set: "\<exists>m2. slice_set m1 md i w = Inr m2
            \<and> slice_elems m2 md = (slice_elems m ?src)[i := w]
            \<and> slice_elems m2 (middlewares (chord_mem m2 a)) = slice_elems m ?src"
    if "i < slice_len md" for i w
  proof -
    let ?m2 = "m1\<lparr>array_mem := (array_mem m1)(next_free m \<mapsto> (slice_elems m ?src)[i := w])\<rparr>"
    have s: "slice_set m1 md i w = Inr ?m2"
      using that by (simp add: slice_set_def f(1) f(6))
    have "slice_elems ?m2 md = take (slice_len ?src) ((slice_elems m ?src)[i := w])"
      by (simp add: slice_elems_def f(1) f(2))
    also have "\<dots> = (slice_elems m ?src)[i := w]"
      by (simp add: slice_elems_def split: option.splits)
    finally have a: "slice_elems ?m2 md = (slice_elems m ?src)[i := w]" .
    have "slice_elems ?m2 ?src = slice_elems m1 ?src"
      using apart by (auto simp: slice_elems_def split: option.splits)
    then have b: "slice_elems ?m2 (middlewares (chord_mem ?m2 a)) = slice_elems m ?src"
      using node1 by (simp add: f(4))
    show ?thesis using s a b by blast
  qed
  show ?thesis
    using fetch snap src1 node1 use set by (intro exI [of _ md] exI [of _ m1]) simp
qed

theorem FetchMiddlewares_is_a_copy_witness:
  "valid_slice sample_memory (middlewares (chord_mem sample_memory 0))
   \<and> (\<exists>md m1. FetchMiddlewares sample_memory (ChordAt 0) = Inr (md, m1)
        \<and> slice_elems m1 md = [around ''r1'' ''R1'', around ''r2'' ''R2'', around ''r3'' ''R3'']
        \<and> (\<exists>m2. Use_each grow_double m1 (ChordAt 0)
                    [ [around ''r4'' ''R4''], [around ''r5'' ''R5'', around ''r6'' ''R6''] ] = Inr m2
              \<and> slice_elems m2 (middlewares (chord_mem m2 0))
                  = [around ''r1'' ''R1'', around ''r2'' ''R2'', around ''r3'' ''R3'',
                     around ''r4'' ''R4'', around ''r5'' ''R5'', around ''r6'' ''R6'']
              \<and> slice_elems m2 md
                  = [around ''r1'' ''R1'', around ''r2'' ''R2'', around ''r3'' ''R3''])
        \<and> (\<exists>m2. slice_set m1 md 1 (around ''z'' ''Z'') = Inr m2
              \<and> slice_elems m2 md
                  = [around ''r1'' ''R1'', around ''z'' ''Z'', around ''r3'' ''R3'']
              \<and> slice_elems m2 (middlewares (chord_mem m2 0))
                  = [around ''r1'' ''R1'', around ''r2'' ''R2'', around ''r3'' ''R3'']))"
proof -
  let ?old = "slice_elems sample_memory (middlewares (chord_mem sample_memory 0))"
  have v: "valid_slice sample_memory (middlewares (chord_mem sample_memory 0))"
    by (simp add: valid_slice_def sample_memory_facts)
  from FetchMiddlewares_is_a_copy [OF v] obtain md m1 where
    f: "FetchMiddlewares sample_memory (ChordAt 0) = Inr (md, m1)" and
    e: "slice_elems m1 md = ?old" and
    u: "\<And>grow tws. \<exists>m2. Use_each grow m1 (ChordAt 0) tws = Inr m2
            \<and> slice_elems m2 (middlewares (chord_mem m2 0)) = ?old @ concat tws
            \<and> slice_elems m2 md = ?old" and
    s: "\<And>i w. i < slice_len md \<Longrightarrow> \<exists>m2. slice_set m1 md i w = Inr m2
            \<and> slice_elems m2 md = ?old[i := w]
            \<and> slice_elems m2 (middlewares (chord_mem m2 0)) = ?old"
    by blast
  have len: "slice_len md = 3"
    using f by (auto simp: FetchMiddlewares_def make_copy_def Let_def sample_memory_facts)
  show ?thesis
    using v f e len s [of 1 "around ''z'' ''Z''"]
      u [of grow_double "[ [around ''r4'' ''R4''], [around ''r5'' ''R5'', around ''r6'' ''R6''] ]"]
    by (simp add: sample_root_elems)
qed

text \<open>
  For contrast, an assignment through the node's own slice header, which is what a
  live view would be, does change the node's sequence.
\<close>

lemma live_view_would_alias:
  "\<exists>m2. slice_set sample_memory (middlewares (chord_mem sample_memory 0)) 1 (around ''z'' ''Z'') = Inr m2
      \<and> slice_elems m2 (middlewares (chord_mem m2 0))
          = [around ''r1'' ''R1'', around ''z'' ''Z'', around ''r3'' ''R3'']"
  by (simp add: slice_set_def slice_elems_def sample_memory_facts)

section \<open>Validity is kept by every call\<close>

lemma valid_slice_chord_mem:
  "valid_slice (m\<lparr>chord_mem := f\<rparr>) s = valid_slice m s"
  by (simp add: valid_slice_def split: option.splits)

lemma all_valid_threads:
  "all_valid m \<Longrightarrow>
   all_valid (m\<lparr>chord_mem := (chord_mem m)(a := (chord_mem m a)\<lparr>threads := ts\<rparr>)\<rparr>)"
  by (simp add: all_valid_def valid_slice_chord_mem)

lemma all_valid_chords:
  "all_valid m \<Longrightarrow>
   all_valid (m\<lparr>chord_mem := (chord_mem m)(a := (chord_mem m a)\<lparr>chords := cs\<rparr>)\<rparr>)"
  by (simp add: all_valid_def valid_slice_chord_mem)

lemma all_valid_Use:
  assumes "all_valid m" and "Use grow m c tw = Inr m'"
  shows "all_valid m'"
proof (cases c)
  case NilChord
  then show ?thesis using assms(2) by (simp add: Use_def)
next
  case (ChordAt a)
  obtain s m2 where ap: "append_slice grow m (middlewares (chord_mem m a)) tw = (s, m2)"
    by (cases "append_slice grow m (middlewares (chord_mem m a)) tw")
  have m': "m' = m2\<lparr>chord_mem := (chord_mem m)(a := (chord_mem m a)\<lparr>middlewares := s\<rparr>)\<rparr>"
    using assms(2) ap ChordAt by (simp add: Use_ChordAt)
  have va: "valid_slice m' t = valid_slice m2 t" for t
    by (simp add: m' valid_slice_chord_mem)
  have "valid_slice m2 s"
    using valid_slice_append_result [OF _ ap] assms(1) by (simp add: all_valid_def)
  moreover have "valid_slice m2 (middlewares (chord_mem m b))" for b
    using valid_slice_append_other [OF _ ap] assms(1) by (simp add: all_valid_def)
  ultimately show ?thesis
    by (simp add: all_valid_def m' valid_slice_chord_mem)
qed

lemma all_valid_make_copy:
  assumes "all_valid m" and "make_copy m src = (md, m')"
  shows "all_valid m'"
  using assms valid_slice_make_copy(1) [OF _ assms(2)] make_copy_facts(4) [OF assms(2)]
  by (simp add: all_valid_def)

lemma all_valid_FetchMiddlewares:
  assumes "all_valid m" and "FetchMiddlewares m c = Inr (md, m')"
  shows "all_valid m'"
  using assms all_valid_make_copy
  by (cases c) (auto simp: FetchMiddlewares_def)

lemma slice_set_chord_mem: "slice_set m s i w = Inr m' \<Longrightarrow> chord_mem m' = chord_mem m"
  by (auto simp: slice_set_def split: option.splits if_splits)

lemma valid_slice_slice_set:
  assumes "valid_slice m t" and "slice_set m s i w = Inr m'"
  shows "valid_slice m' t"
  using assms
  by (auto simp: valid_slice_def slice_set_def split: option.splits if_splits)

lemma all_valid_slice_set:
  assumes "all_valid m" and "slice_set m s i w = Inr m'"
  shows "all_valid m'"
  using assms(1) valid_slice_slice_set [OF _ assms(2)] slice_set_chord_mem [OF assms(2)]
  by (simp add: all_valid_def)

section \<open>Properties of Match\<close>

text \<open>
  C5: for every node (every memory, with any handlers, children and middleware, and
  every node reference), Match on the empty path returns not-found with the nil
  handler, and the memory is unchanged.
\<close>

theorem Match_empty_path: "Match m node [] = Inr ((NilThread, False), m)"
  by simp

text \<open>Match on a path of one key, on every memory.\<close>

lemma Match_single:
  "Match m (ChordAt a) [k] =
     (case threads (chord_mem m a) k of
        None \<Rightarrow> Inr ((NilThread, False), m)
      | Some h \<Rightarrow> Inr ((WrapThreads h (slice_elems m (middlewares (chord_mem m a))), True),
                       snd (make_copy m (middlewares (chord_mem m a)))))"
proof (cases "threads (chord_mem m a) k")
  case None
  then show ?thesis by (simp add: FetchThread_def)
next
  case (Some h)
  obtain md m1 where mc: "make_copy m (middlewares (chord_mem m a)) = (md, m1)"
    by (cases "make_copy m (middlewares (chord_mem m a))")
  have "slice_elems m1 md = slice_elems m (middlewares (chord_mem m a))"
    using slice_elems_make_copy [of m "middlewares (chord_mem m a)"] mc by simp
  then show ?thesis
    using Some mc by (simp add: FetchThread_def FetchMiddlewares_def)
qed

text \<open>
  What holds of Match on a path of one key, for every node and key: it returns found
  exactly when a handler is stored under the key in the node's handler map; when none
  is, it returns not-found; when the handler \<open>h\<close> is, the handler returned is
  WrapThreads of \<open>h\<close> and all the elements of the node's middleware; and the result
  is the same whatever the node's child map is.
\<close>

lemma Match_single_key_lookup:
  "((\<exists>t m'. Match m (ChordAt a) [k] = Inr ((t, True), m')) \<longleftrightarrow> threads (chord_mem m a) k \<noteq> None)
   \<and> (threads (chord_mem m a) k = None \<longrightarrow> Match m (ChordAt a) [k] = Inr ((NilThread, False), m))
   \<and> (\<forall>h. threads (chord_mem m a) k = Some h \<longrightarrow>
         (\<exists>m'. Match m (ChordAt a) [k] =
            Inr ((WrapThreads h (slice_elems m (middlewares (chord_mem m a))), True), m')))
   \<and> (\<forall>cs. map_sum id fst
              (Match (m\<lparr>chord_mem := (chord_mem m)(a := (chord_mem m a)\<lparr>chords := cs\<rparr>)\<rparr>) (ChordAt a) [k])
           = map_sum id fst (Match m (ChordAt a) [k]))"
proof (intro conjI allI impI)
  show "(\<exists>t m'. Match m (ChordAt a) [k] = Inr ((t, True), m')) \<longleftrightarrow> threads (chord_mem m a) k \<noteq> None"
    unfolding Match_single by (simp split: option.splits)
next
  assume "threads (chord_mem m a) k = None"
  then show "Match m (ChordAt a) [k] = Inr ((NilThread, False), m)"
    unfolding Match_single by simp
next
  fix h assume "threads (chord_mem m a) k = Some h"
  then show "\<exists>m'. Match m (ChordAt a) [k] =
            Inr ((WrapThreads h (slice_elems m (middlewares (chord_mem m a))), True), m')"
    unfolding Match_single by simp
next
  fix cs
  have "slice_elems (m\<lparr>chord_mem := (chord_mem m)(a := (chord_mem m a)\<lparr>chords := cs\<rparr>)\<rparr>) s
        = slice_elems m s" for s
    by (simp add: slice_elems_def split: option.splits)
  then show "map_sum id fst
              (Match (m\<lparr>chord_mem := (chord_mem m)(a := (chord_mem m a)\<lparr>chords := cs\<rparr>)\<rparr>) (ChordAt a) [k])
           = map_sum id fst (Match m (ChordAt a) [k])"
    unfolding Match_single by (simp split: option.splits)
qed

lemma Match_single_key_lookup_sample:
  "threads (chord_mem sample_memory 0) ''h'' = Some (say ''h'')
   \<and> chords (chord_mem sample_memory 0) ''h'' = Some (ChordAt 1)
   \<and> (\<exists>m'. Match sample_memory (ChordAt 0) [''h''] =
         Inr ((WrapThreads (say ''h'')
                 [around ''r1'' ''R1'', around ''r2'' ''R2'', around ''r3'' ''R3''], True), m'))
   \<and> threads (chord_mem sample_memory 0) ''c'' = None
   \<and> Match sample_memory (ChordAt 0) [''c''] = Inr ((NilThread, False), sample_memory)"
proof -
  have h: "threads (chord_mem sample_memory 0) ''h'' = Some (say ''h'')"
    and c: "threads (chord_mem sample_memory 0) ''c'' = None"
    and hc: "chords (chord_mem sample_memory 0) ''h'' = Some (ChordAt 1)"
    by (simp_all add: sample_memory_facts)
  have "\<exists>m'. Match sample_memory (ChordAt 0) [''h''] =
         Inr ((WrapThreads (say ''h'')
            (slice_elems sample_memory (middlewares (chord_mem sample_memory 0))), True), m')"
    using Match_single_key_lookup [of sample_memory 0 "''h''"] h by blast
  moreover have "Match sample_memory (ChordAt 0) [''c''] = Inr ((NilThread, False), sample_memory)"
    using Match_single_key_lookup [of sample_memory 0 "''c''"] c by blast
  ultimately show ?thesis
    using h c hc by (simp add: sample_root_elems)
qed

text \<open>
  C3: Match on a path of one key should return the stored handler composed with all
  of the node's middleware. That it finds exactly the stored keys and does not consult
  the child map holds (above); the composition does not. In the README's example the
  handler found under \<open>hello\<close> logs \<open>hello\<close> alone, where the handler composed with the
  logging middleware logs \<open>Executing, hello, Finished\<close>. On the example memory, whose
  root has the middleware \<open>r1/R1, r2/R2, r3/R3\<close>, the handler found under \<open>h\<close> logs
  \<open>r2, r3, h, R3, R2\<close>: the first wrapper of the snapshot is missing.
\<close>

theorem Match_single_key_example:
  "and_then readme_tree (\<lambda>m. resolve_and_run m (ChordAt 0) [''hello''])
     = Inr (True, Some [''hello''])
   \<and> invoke (ComposeHandler_spec (say ''hello'') [around ''Executing'' ''Finished'']) []
     = Some [''Executing'', ''hello'', ''Finished'']
   \<and> resolve_and_run sample_memory (ChordAt 0) [''h'']
     = Inr (True, Some [''r2'', ''r3'', ''h'', ''R3'', ''R2''])"
proof -
  have "and_then readme_tree (\<lambda>m. resolve_and_run m (ChordAt 0) [''hello''])
          = Inr (True, Some [''hello''])"
    by (simp add: readme_tree_def and_then_def resolve_and_run_def Use_def Register_def
          empty_Memory_def zero_Chord_def nil_slice_def append_slice_def slice_elems_def
          FetchThread_def FetchMiddlewares_def make_copy_def WrapThreads_tl
          invoke_def say_def grow_double_def Let_def)
  moreover have "invoke (ComposeHandler_spec (say ''hello'') [around ''Executing'' ''Finished'']) []
          = Some [''Executing'', ''hello'', ''Finished'']"
    by (simp add: ComposeHandler_spec_def invoke_def say_def around_def)
  moreover have "resolve_and_run sample_memory (ChordAt 0) [''h'']
          = Inr (True, Some [''r2'', ''r3'', ''h'', ''R3'', ''R2''])"
    unfolding resolve_and_run_def Match_single
    by (simp add: and_then_def sample_memory_facts slice_elems_def WrapThreads_tl
          invoke_def say_def around_def)
  ultimately show ?thesis by simp
qed

text \<open>
  C4: for every node and every path of at least two keys, Match looks the first key
  up in the node's child map only. When no child is mounted under it, Match returns
  not-found and the memory is as before, whatever the node's handler map holds under
  that key. When a child is mounted under it, the result is the one of the recursion
  through that child, wrapped with the child's middleware; a handler the node stores
  under the same key plays no part.
\<close>

theorem Match_first_key_in_child_map:
  "(chords (chord_mem m a) k = None \<longrightarrow>
      Match m (ChordAt a) (k # k' # rest) = Inr ((NilThread, False), m))
   \<and> (\<forall>c. chords (chord_mem m a) k = Some c \<longrightarrow>
         Match m (ChordAt a) (k # k' # rest) =
           (case Match m c (k' # rest) of
              Inl p \<Rightarrow> Inl p
            | Inr ((thread, ok), m1) \<Rightarrow>
                if \<not> ok then Inr ((NilThread, False), m1)
                else (case FetchMiddlewares m1 c of
                        Inl p \<Rightarrow> Inl p
                      | Inr (md, m2) \<Rightarrow>
                          Inr ((WrapThreads thread (slice_elems m2 md), True), m2))))"
proof (intro conjI allI impI)
  assume "chords (chord_mem m a) k = None"
  then show "Match m (ChordAt a) (k # k' # rest) = Inr ((NilThread, False), m)"
    by (simp add: FetchChord_def)
next
  fix c assume "chords (chord_mem m a) k = Some c"
  then show "Match m (ChordAt a) (k # k' # rest) =
           (case Match m c (k' # rest) of
              Inl p \<Rightarrow> Inl p
            | Inr ((thread, ok), m1) \<Rightarrow>
                if \<not> ok then Inr ((NilThread, False), m1)
                else (case FetchMiddlewares m1 c of
                        Inl p \<Rightarrow> Inl p
                      | Inr (md, m2) \<Rightarrow>
                          Inr ((WrapThreads thread (slice_elems m2 md), True), m2)))"
    by (simp add: FetchChord_def del: Match.simps(2))
qed

theorem Match_first_key_in_child_map_witness:
  "threads (chord_mem sample_memory 0) ''x'' = Some (say ''x'')
   \<and> chords (chord_mem sample_memory 0) ''x'' = None
   \<and> Match sample_memory (ChordAt 0) [''x'', ''h''] = Inr ((NilThread, False), sample_memory)
   \<and> threads (chord_mem sample_memory 0) ''h'' = Some (say ''h'')
   \<and> chords (chord_mem sample_memory 0) ''h'' = Some (ChordAt 1)
   \<and> resolve_and_run sample_memory (ChordAt 0) [''h'', ''h'']
       = Inr (True, Some [''c2'', ''c2'', ''k'', ''C2'', ''C2''])"
proof -
  have x: "chords (chord_mem sample_memory 0) ''x'' = None"
    and h: "chords (chord_mem sample_memory 0) ''h'' = Some (ChordAt 1)"
    by (simp_all add: sample_memory_facts)
  have absent: "Match sample_memory (ChordAt 0) [''x'', ''h''] = Inr ((NilThread, False), sample_memory)"
    using Match_first_key_in_child_map [of sample_memory 0 "''x''" "''h''" "[]"] x by blast
  have present: "Match sample_memory (ChordAt 0) [''h'', ''h''] =
           (case Match sample_memory (ChordAt 1) [''h''] of
              Inl p \<Rightarrow> Inl p
            | Inr ((thread, ok), m1) \<Rightarrow>
                if \<not> ok then Inr ((NilThread, False), m1)
                else (case FetchMiddlewares m1 (ChordAt 1) of
                        Inl p \<Rightarrow> Inl p
                      | Inr (md, m2) \<Rightarrow>
                          Inr ((WrapThreads thread (slice_elems m2 md), True), m2)))"
    using Match_first_key_in_child_map [of sample_memory 0 "''h''" "''h''" "[]"] h by blast
  have run: "resolve_and_run sample_memory (ChordAt 0) [''h'', ''h'']
       = Inr (True, Some [''c2'', ''c2'', ''k'', ''C2'', ''C2''])"
    unfolding resolve_and_run_def present Match_single
    by (simp add: and_then_def sample_memory_facts sample_memory_facts [unfolded One_nat_def]
          slice_elems_def FetchMiddlewares_def make_copy_def Let_def WrapThreads_tl
          invoke_def say_def around_def)
  show ?thesis
    using x h absent run by (simp add: sample_memory_facts)
qed

text \<open>
  Match on a path of two keys, on every memory whose child slice is valid: the handler
  stored in the child is wrapped with the child's middleware by the inner call, and
  with the child's middleware again by the outer call. The middleware of the node the
  path starts at is not read.
\<close>

lemma Match_two_keys:
  assumes child: "chords (chord_mem m a) k = Some (ChordAt b)"
      and handler: "threads (chord_mem m b) k' = Some h"
      and valid: "valid_slice m (middlewares (chord_mem m b))"
  shows "\<exists>m'. Match m (ChordAt a) [k, k'] =
           Inr ((WrapThreads (WrapThreads h (slice_elems m (middlewares (chord_mem m b))))
                   (slice_elems m (middlewares (chord_mem m b))), True), m')"
proof -
  let ?src = "middlewares (chord_mem m b)"
  obtain md m1 where mc: "make_copy m ?src = (md, m1)"
    by (cases "make_copy m ?src")
  have inner: "Match m (ChordAt b) [k'] = Inr ((WrapThreads h (slice_elems m ?src), True), m1)"
    unfolding Match_single using handler mc by simp
  have src1: "middlewares (chord_mem m1 b) = ?src"
    using make_copy_facts(4) [OF mc] by simp
  obtain md' m2 where mc': "make_copy m1 ?src = (md', m2)"
    by (cases "make_copy m1 ?src")
  have "slice_elems m2 md' = slice_elems m1 ?src"
    using slice_elems_make_copy [of m1 ?src] mc' by simp
  also have "\<dots> = slice_elems m ?src"
    using valid_slice_make_copy(2) [OF valid mc] .
  finally have again: "slice_elems m2 md' = slice_elems m ?src" .
  have "Match m (ChordAt a) [k, k'] =
          Inr ((WrapThreads (WrapThreads h (slice_elems m ?src)) (slice_elems m ?src), True), m2)"
    using child inner src1 mc' again
    by (simp add: FetchChord_def FetchMiddlewares_def del: Match.simps(2))
  then show ?thesis by blast
qed

text \<open>
  C2: Match on a path of two keys should wrap the handler with the child's
  middleware and then with the parent's. On the tree of property P4, root middleware
  \<open>m1/M1\<close>, child middleware \<open>m2/M2\<close>, handler \<open>h\<close>, the handler Match returns logs
  \<open>h\<close> alone. With two wrappers at each node, \<open>r1/R1, r2/R2\<close> at the root and
  \<open>c1/C1, c2/C2\<close> at the child, it logs \<open>c2, c2, h, C2, C2\<close>: the root's middleware is
  absent and the child's is applied twice (without its first wrapper).
\<close>

theorem Match_two_level_example:
  "and_then (two_level [around ''m1'' ''M1''] [around ''m2'' ''M2''])
     (\<lambda>m. resolve_and_run m (ChordAt 0) [''c'', ''h'']) = Inr (True, Some [''h''])
   \<and> and_then (two_level [around ''r1'' ''R1'', around ''r2'' ''R2'']
                         [around ''c1'' ''C1'', around ''c2'' ''C2''])
     (\<lambda>m. resolve_and_run m (ChordAt 0) [''c'', ''h''])
       = Inr (True, Some [''c2'', ''c2'', ''h'', ''C2'', ''C2''])"
  by (simp add: and_then_def two_level_def resolve_and_run_def Use_def Register_def Mount_def
        empty_Memory_def zero_Chord_def nil_slice_def append_slice_def slice_elems_def
        FetchThread_def FetchChord_def FetchMiddlewares_def make_copy_def WrapThreads_tl
        invoke_def say_def around_def grow_double_def Let_def)

section \<open>Reachable memories are valid\<close>

lemma all_valid_Match:
  "all_valid m \<Longrightarrow> Match m c path = Inr (r, m') \<Longrightarrow> all_valid m'"
proof (induction path arbitrary: m c r m')
  case Nil
  then show ?case by simp
next
  case (Cons key ks)
  show ?case
  proof (cases ks)
    case Nil
    then show ?thesis
      using Cons.prems
      by (auto split: sum.splits if_splits prod.splits dest: all_valid_FetchMiddlewares)
  next
    case (Cons key' rest)
    show ?thesis
    proof (cases "FetchChord m c key")
      case (Inl p)
      then show ?thesis using Cons.prems(2) Cons by simp
    next
      case (Inr x)
      obtain chord ok where x: "x = (chord, ok)" by (cases x)
      show ?thesis
      proof (cases ok)
        case False
        then show ?thesis using Cons.prems Cons Inr x by simp
      next
        case True
        show ?thesis
        proof (cases "Match m chord ks")
          case (Inl p)
          then show ?thesis using Cons.prems(2) Cons Inr x True by simp
        next
          case inner: (Inr y)
          obtain thread ok' m1 where y: "y = ((thread, ok'), m1)"
            by (cases y) auto
          have v1: "all_valid m1"
            using Cons.IH [OF Cons.prems(1)] inner y by simp
          show ?thesis
          proof (cases ok')
            case False
            then show ?thesis using Cons.prems(2) Cons Inr x True inner y v1 by simp
          next
            case ok: True
            then show ?thesis
              using Cons.prems(2) Cons Inr x True inner y v1
              by (auto split: sum.splits prod.splits dest: all_valid_FetchMiddlewares)
          qed
        qed
      qed
    qed
  qed
qed

lemma all_valid_empty_Memory: "all_valid empty_Memory"
  by (simp add: all_valid_def valid_slice_empty_Memory)

lemma reachable_all_valid: "reachable m \<Longrightarrow> all_valid m"
proof (induction rule: reachable.induct)
  case start
  then show ?case by (rule all_valid_empty_Memory)
next
  case (register m c key thread tw m')
  then show ?case
    by (cases c) (auto simp: Register_def Let_def intro: all_valid_threads)
next
  case (unregister m c key thread m')
  then show ?case
    by (cases c) (auto simp: Unregister_def intro: all_valid_threads)
next
  case (mount m c key chord m')
  then show ?case
    by (cases c) (auto simp: Mount_def intro: all_valid_chords)
next
  case (unmount m c key m')
  then show ?case
    by (cases c) (auto simp: Unmount_def intro: all_valid_chords)
next
  case (use m grow c tw m')
  then show ?case by (auto intro: all_valid_Use)
next
  case (fetch m c md m')
  then show ?case by (auto intro: all_valid_FetchMiddlewares)
next
  case (match m c path r m')
  then show ?case by (auto intro: all_valid_Match)
next
  case (assign m s i w m')
  then show ?case by (auto intro: all_valid_slice_set)
qed

text \<open>
  So the hypothesis of the theorem on FetchMiddlewares holds of every node in every
  memory the package can reach.
\<close>

lemma reachable_valid_slice: "reachable m \<Longrightarrow> valid_slice m (middlewares (chord_mem m a))"
  using reachable_all_valid [of m] by (simp add: all_valid_def)

end
